theory Spec2Isabelle
  imports
    Main
    "HOL-Library.Sorting_Algorithms"
    "HOL-Library.Char_ord"
    "HOL-Library.List_Lexorder"
begin

section \<open>JavaScript values\<close>

text \<open>
  The validator (\<^verbatim>\<open>src/lib/task-validator.ts\<close>) and the overlay example work on values
  of type \<^verbatim>\<open>unknown\<close> that come out of \<^verbatim>\<open>JSON.parse\<close> / JSON5: \<^verbatim>\<open>undefined\<close>,
  \<^verbatim>\<open>null\<close>, booleans, numbers, strings, arrays and plain objects.

  \<^item> Numbers are modelled as \<^typ>\<open>int\<close>; \<^verbatim>\<open>String(n)\<close> is the decimal numeral, as it is
    in JavaScript for every integer of magnitude below \<open>10\<^sup>2\<^sup>1\<close>.
  \<^item> Strings are \<^typ>\<open>string\<close>: a list of code units below 256, compared unit by unit.
  \<^item> A plain object is the list of its own properties in enumeration order
    (\<^verbatim>\<open>Object.keys\<close> order). Properties inherited from \<^verbatim>\<open>Object.prototype\<close> are not
    part of the model.
\<close>

datatype jv =
    JUndef
  | JNull
  | JBool bool
  | JNum int
  | JStr string
  | JArr "jv list"
  | JObj "(string \<times> jv) list"

type_synonym obj = "(string \<times> jv) list"

text \<open>The \<^verbatim>\<open>typeof\<close> operator.\<close>

fun typeof :: "jv \<Rightarrow> string" where
  "typeof JUndef = ''undefined''"
| "typeof JNull = ''object''"
| "typeof (JBool b) = ''boolean''"
| "typeof (JNum n) = ''number''"
| "typeof (JStr s) = ''string''"
| "typeof (JArr xs) = ''object''"
| "typeof (JObj kvs) = ''object''"

text \<open>\<^verbatim>\<open>Array.isArray\<close>.\<close>

fun isArray :: "jv \<Rightarrow> bool" where
  "isArray (JArr xs) = True"
| "isArray v = False"

text \<open>Truthiness (\<^verbatim>\<open>ToBoolean\<close>), as used by \<^verbatim>\<open>!x\<close>, \<^verbatim>\<open>x && y\<close>, \<^verbatim>\<open>x || y\<close>.\<close>

fun truthy :: "jv \<Rightarrow> bool" where
  "truthy JUndef = False"
| "truthy JNull = False"
| "truthy (JBool b) = b"
| "truthy (JNum n) = (n \<noteq> 0)"
| "truthy (JStr s) = (s \<noteq> [])"
| "truthy (JArr xs) = True"
| "truthy (JObj kvs) = True"

text \<open>
  Strict equality \<^verbatim>\<open>===\<close>. Primitives are compared by value; arrays and objects are
  compared by identity, and the two sides of every \<^verbatim>\<open>===\<close> in the sources come from
  different documents (override file, API response), so they are never identical.
\<close>

fun strictEq :: "jv \<Rightarrow> jv \<Rightarrow> bool" where
  "strictEq (JArr xs) w = False"
| "strictEq (JObj kvs) w = False"
| "strictEq v w = (v = w)"

subsection \<open>Numbers and strings\<close>

fun showNat :: "nat \<Rightarrow> string" where
  "showNat n =
     (if n < 10 then [''0123456789'' ! n]
      else showNat (n div 10) @ [''0123456789'' ! (n mod 10)])"

declare showNat.simps [simp del]

definition showInt :: "int \<Rightarrow> string" where
  "showInt i = (if i < 0 then CHR ''-'' # showNat (nat (- i)) else showNat (nat i))"

text \<open>\<^verbatim>\<open>Array.prototype.join\<close> on elements that are already strings.\<close>

fun join :: "string \<Rightarrow> string list \<Rightarrow> string" where
  "join sep [] = []"
| "join sep [x] = x"
| "join sep (x # y # ys) = x @ sep @ join sep (y # ys)"

text \<open>
  \<^verbatim>\<open>String(v)\<close>, which is also what a template literal and \<^verbatim>\<open>join\<close> apply to a value.
  Inside an array \<^verbatim>\<open>undefined\<close> and \<^verbatim>\<open>null\<close> become the empty string.
\<close>

fun toString :: "jv \<Rightarrow> string" where
  "toString JUndef = ''undefined''"
| "toString JNull = ''null''"
| "toString (JBool b) = (if b then ''true'' else ''false'')"
| "toString (JNum n) = showInt n"
| "toString (JStr s) = s"
| "toString (JArr xs) =
     join '','' (map (\<lambda>x. if x = JUndef \<or> x = JNull then [] else toString x) xs)"
| "toString (JObj kvs) = ''[object Object]''"

subsection \<open>Objects\<close>

text \<open>\<^verbatim>\<open>o[k]\<close> on a plain object: the property's value, \<^verbatim>\<open>undefined\<close> when absent.\<close>

definition get :: "obj \<Rightarrow> string \<Rightarrow> jv" where
  "get kvs k = (case map_of kvs k of None \<Rightarrow> JUndef | Some v \<Rightarrow> v)"

text \<open>\<^verbatim>\<open>Object.keys(o)\<close> and \<^verbatim>\<open>Object.entries(o)\<close> of a plain object.\<close>

definition keys :: "obj \<Rightarrow> string list" where
  "keys kvs = map fst kvs"

text \<open>
  An array index is a canonical numeric string below \<open>2\<^sup>3\<^sup>2 - 1\<close>. An ordinary object
  enumerates its array-index keys first, in ascending numeric order, and then its other
  string keys in the order they were created.
\<close>

definition isDigit :: "char \<Rightarrow> bool" where
  "isDigit c = (CHR ''0'' \<le> c \<and> c \<le> CHR ''9'')"

definition parseNat :: "string \<Rightarrow> int" where
  "parseNat s = foldl (\<lambda>a c. 10 * a + (of_char c - 48)) 0 s"

definition isArrayIndex :: "string \<Rightarrow> bool" where
  "isArrayIndex s =
     (if s \<noteq> [] \<and> list_all isDigit s
      then (s = ''0'' \<or> hd s \<noteq> CHR ''0'') \<and> parseNat s < 4294967295
      else False)"

fun insertIndexKey :: "string \<Rightarrow> jv \<Rightarrow> obj \<Rightarrow> obj" where
  "insertIndexKey k v [] = [(k, v)]"
| "insertIndexKey k v ((k', v') # rest) =
     (if isArrayIndex k' \<and> parseNat k' < parseNat k
      then (k', v') # insertIndexKey k v rest
      else (k, v) # (k', v') # rest)"

text \<open>
  The assignment \<^verbatim>\<open>o[k] = v\<close>: an existing property keeps its place and takes the new
  value; a new property is placed by the enumeration rule above.
\<close>

definition obj_set :: "obj \<Rightarrow> string \<Rightarrow> jv \<Rightarrow> obj" where
  "obj_set kvs k v =
     (if k \<in> set (keys kvs) then map (\<lambda>(k', v'). if k' = k then (k', v) else (k', v')) kvs
      else if isArrayIndex k then insertIndexKey k v kvs
      else kvs @ [(k, v)])"

subsection \<open>JSON.stringify\<close>

definition hexDigit :: "nat \<Rightarrow> char" where
  "hexDigit n = ''0123456789abcdef'' ! n"

text \<open>
  \<^verbatim>\<open>QuoteJSONString\<close>: the quotation mark, the backslash and the control characters are
  escaped, every other code unit is copied.
\<close>

definition escapeChar :: "char \<Rightarrow> string" where
  "escapeChar c =
     (if c = CHR 0x22 then [CHR 0x5C, CHR 0x22]
      else if c = CHR 0x5C then [CHR 0x5C, CHR 0x5C]
      else if c = CHR 0x08 then [CHR 0x5C, CHR ''b'']
      else if c = CHR 0x0C then [CHR 0x5C, CHR ''f'']
      else if c = CHR 0x0A then [CHR 0x5C, CHR ''n'']
      else if c = CHR 0x0D then [CHR 0x5C, CHR ''r'']
      else if c = CHR 0x09 then [CHR 0x5C, CHR ''t'']
      else if (of_char c :: nat) < 32
        then [CHR 0x5C, CHR ''u'', CHR ''0'', CHR ''0'',
              hexDigit (of_char c div 16), hexDigit (of_char c mod 16)]
      else [c])"

definition quoteJSON :: "string \<Rightarrow> string" where
  "quoteJSON s = CHR 0x22 # concat (map escapeChar s) @ [CHR 0x22]"

text \<open>
  \<^verbatim>\<open>JSON.stringify(v)\<close> without indentation. The result is \<^verbatim>\<open>undefined\<close> (\<^const>\<open>None\<close>)
  for \<^verbatim>\<open>undefined\<close>; inside an array \<^verbatim>\<open>undefined\<close> is written \<^verbatim>\<open>null\<close>, and a property
  whose value is \<^verbatim>\<open>undefined\<close> is left out.
\<close>

fun stringify :: "jv \<Rightarrow> string option" where
  "stringify JUndef = None"
| "stringify JNull = Some ''null''"
| "stringify (JBool b) = Some (if b then ''true'' else ''false'')"
| "stringify (JNum n) = Some (showInt n)"
| "stringify (JStr s) = Some (quoteJSON s)"
| "stringify (JArr xs) =
     Some (''['' @ join '','' (map (\<lambda>x. case stringify x of None \<Rightarrow> ''null'' | Some j \<Rightarrow> j) xs)
           @ '']'')"
| "stringify (JObj kvs) =
     Some (''{'' @ join '',''
             (concat (map (\<lambda>(k, v). case stringify v of None \<Rightarrow> []
                                     | Some j \<Rightarrow> [quoteJSON k @ '':'' @ j]) kvs))
           @ ''}'')"

section \<open>Value normalizer (task-validator.ts)\<close>

text \<open>
  \<^verbatim>\<open>String.prototype.localeCompare\<close> is the host's collation. It is a parameter \<open>lc\<close> of
  the model: a consistent comparison (a linear quasi-order) on strings, whose result
  \<^const>\<open>Less\<close>, \<^const>\<open>Equiv\<close>, \<^const>\<open>Greater\<close> stands for a negative number, zero, a
  positive number. \<^verbatim>\<open>Array.prototype.sort\<close> with a comparison function is a stable sort,
  \<^const>\<open>Sorting_Algorithms.sort\<close>; without one it sorts strings by code units,
  \<^const>\<open>List.sort\<close> on \<^typ>\<open>string\<close>.
\<close>

definition sortKey :: "jv \<Rightarrow> string" where
  "sortKey v =
     (if v = JUndef then ''undefined''
      else if v = JNull then ''null''
      else if typeof v = ''string'' \<or> typeof v = ''number'' \<or> typeof v = ''boolean''
        then toString v
      else (case stringify v of Some json \<Rightarrow> json | None \<Rightarrow> toString v))"

function normalizeValue :: "string comparator \<Rightarrow> jv \<Rightarrow> jv" where
  "normalizeValue lc (JArr xs) =
     (let normalized = map (normalizeValue lc) xs
      in JArr (map snd
           (Sorting_Algorithms.sort (key fst lc)
              (map (\<lambda>item. (sortKey item, item)) normalized))))"
| "normalizeValue lc (JObj kvs) =
     (let ks = List.sort (keys kvs)
      in JObj (fold (\<lambda>k normalized. obj_set normalized k (normalizeValue lc (get kvs k)))
                 ks []))"
| "normalizeValue lc JUndef = JUndef"
| "normalizeValue lc JNull = JNull"
| "normalizeValue lc (JBool b) = JBool b"
| "normalizeValue lc (JNum n) = JNum n"
| "normalizeValue lc (JStr s) = JStr s"
  by pat_completeness auto
termination
proof (relation "measure (\<lambda>(lc, v). size v)")
  have get_le: "size (get kvs k) \<le> size_list (size_prod (\<lambda>x. 0) size) kvs"
    for kvs :: obj and k
    by (induction kvs) (auto simp: get_def)
  fix lc :: "string comparator" and kvs :: obj and ks k normalized
  show "((lc, get kvs k), (lc, JObj kvs)) \<in> measure (\<lambda>(lc, v). size v)"
    using get_le [of kvs k] by simp
qed (auto simp: less_Suc_eq_le size_list_estimation')


definition valuesEqual :: "string comparator \<Rightarrow> jv \<Rightarrow> jv \<Rightarrow> bool" where
  "valuesEqual lc a b =
     (if a = JUndef \<and> b = JUndef then True
      else stringify (normalizeValue lc a) = stringify (normalizeValue lc b))"

section \<open>Subset comparator (task-validator.ts)\<close>

text \<open>
  The cast \<^verbatim>\<open>value as Record<string, unknown>\<close>; the source applies it only after it has
  checked that the value is a non-array object.
\<close>

fun asRecord :: "jv \<Rightarrow> obj" where
  "asRecord (JObj kvs) = kvs"
| "asRecord v = []"

function compareSubset :: "string comparator \<Rightarrow> jv \<Rightarrow> jv \<Rightarrow> bool" where
  "compareSubset lc overrideValue apiValue =
     (if overrideValue = JUndef then True
      else if overrideValue = JNull \<or> typeof overrideValue \<noteq> ''object'' \<or> isArray overrideValue
        then valuesEqual lc overrideValue apiValue
      else if \<not> truthy apiValue \<or> typeof apiValue \<noteq> ''object'' \<or> isArray apiValue
        then False
      else (let overrideObject = asRecord overrideValue; apiObject = asRecord apiValue
            in list_all (\<lambda>key. compareSubset lc (get overrideObject key) (get apiObject key))
                 (keys overrideObject)))"
  by pat_completeness auto
termination
proof (relation "measure (\<lambda>(lc, ov, av). size ov)")
  have get_le: "size (get kvs k) \<le> size_list (size_prod (\<lambda>x. 0) size) kvs"
    for kvs :: obj and k
    by (induction kvs) (auto simp: get_def)
  fix lc :: "string comparator" and overrideValue apiValue :: jv and overrideObject apiObject key
  assume "overrideValue \<noteq> JUndef"
    and "\<not> (overrideValue = JNull \<or> typeof overrideValue \<noteq> ''object'' \<or> isArray overrideValue)"
    and "overrideObject = asRecord overrideValue"
  then show "((lc, get overrideObject key, get apiObject key), (lc, overrideValue, apiValue))
      \<in> measure (\<lambda>(lc, ov, av). size ov)"
    using get_le [of "asRecord overrideValue" key] by (cases overrideValue) simp_all
qed simp

declare compareSubset.simps [simp del]



section \<open>Field reconciler (task-validator.ts)\<close>

subsection \<open>Types\<close>

text \<open>
  Modelled from the spec: the declarations of \<^verbatim>\<open>TaskOverride\<close>, \<^verbatim>\<open>TaskData\<close>,
  \<^verbatim>\<open>ValidationDetail\<close>, \<^verbatim>\<open>ValidationResult\<close> and \<^verbatim>\<open>ValidationStatus\<close> live in
  \<^verbatim>\<open>types.ts\<close>, which is not among the sources. The records below have the fields the
  validator reads and the specification lists: a live task is
  \<^verbatim>\<open>{id, name, minPlayerLevel, wikiLink, map, experience, finishRewards,
  taskRequirements: [{task: {id}, status}], objectives: [{id, ...fields}]}\<close>.
  An optional field that is absent holds \<^const>\<open>JUndef\<close> (a value of type \<^verbatim>\<open>unknown\<close>)
  or \<^const>\<open>None\<close> (a typed field). Field names carry a prefix because the records share
  them.
\<close>

datatype DetailStatus = fixed | needed | check | info

datatype ValidationStatus = NEEDED | FIXED | REMOVED_FROM_API

record ValidationDetail =
  d_field :: string
  d_status :: DetailStatus
  d_message :: string

record ValidationResult =
  r_id :: string
  r_name :: string
  r_status :: ValidationStatus
  r_stillNeeded :: bool
  r_details :: "ValidationDetail list"

record TaskRef =
  ref_id :: string

record TaskRequirement =
  req_task :: "TaskRef option"
  req_status :: "string list option"

record TaskOverride =
  o_minPlayerLevel :: jv
  o_name :: jv
  o_wikiLink :: jv
  o_map :: jv
  o_experience :: jv
  o_finishRewards :: jv
  o_taskRequirements :: "TaskRequirement list option"
  o_objectives :: "(string \<times> obj) list option"
  o_objectivesAdd :: "obj list option"
  o_disabled :: "bool option"

record TaskData =
  t_id :: string
  t_name :: string
  t_minPlayerLevel :: jv
  t_wikiLink :: jv
  t_map :: jv
  t_experience :: jv
  t_finishRewards :: jv
  t_taskRequirements :: "TaskRequirement list option"
  t_objectives :: "obj list option"

text \<open>\<^verbatim>\<open>override[field]\<close> and \<^verbatim>\<open>apiTask[field]\<close> for the field names the validators use.\<close>

definition overrideField :: "TaskOverride \<Rightarrow> string \<Rightarrow> jv" where
  "overrideField override f =
     (if f = ''minPlayerLevel'' then o_minPlayerLevel override
      else if f = ''name'' then o_name override
      else if f = ''wikiLink'' then o_wikiLink override
      else if f = ''map'' then o_map override
      else if f = ''experience'' then o_experience override
      else if f = ''finishRewards'' then o_finishRewards override
      else JUndef)"

definition apiField :: "TaskData \<Rightarrow> string \<Rightarrow> jv" where
  "apiField apiTask f =
     (if f = ''minPlayerLevel'' then t_minPlayerLevel apiTask
      else if f = ''name'' then JStr (t_name apiTask)
      else if f = ''wikiLink'' then t_wikiLink apiTask
      else if f = ''map'' then t_map apiTask
      else if f = ''experience'' then t_experience apiTask
      else if f = ''finishRewards'' then t_finishRewards apiTask
      else JUndef)"

type_synonym FieldValidator = "TaskOverride \<Rightarrow> TaskData \<Rightarrow> ValidationDetail option"

subsection \<open>Field validators\<close>

definition formatValue :: "jv \<Rightarrow> string" where
  "formatValue v =
     (if v = JUndef \<or> v = JNull then ''undefined''
      else if typeof v = ''string'' then [CHR 0x27] @ toString v @ [CHR 0x27]
      else if typeof v = ''object''
        then (case stringify v of Some json \<Rightarrow> json | None \<Rightarrow> ''undefined'')
      else toString v)"

definition createFieldValidator :: "string comparator \<Rightarrow> string \<Rightarrow> FieldValidator" where
  "createFieldValidator lc f = (\<lambda>override apiTask.
     let overrideValue = overrideField override f
     in if overrideValue = JUndef then None
        else
          let apiValue = apiField apiTask f;
              isMatch = compareSubset lc overrideValue apiValue
          in Some \<lparr> d_field = f,
                    d_status = (if isMatch then fixed else needed),
                    d_message =
                      (if isMatch then f @ '': '' @ formatValue apiValue @ '' - FIXED IN API''
                       else f @ '': API='' @ formatValue apiValue @ '', Override=''
                            @ formatValue overrideValue @ '' - STILL NEEDED'') \<rparr>)"

text \<open>\<^verbatim>\<open>r.task?.id\<close>\<close>

definition reqTaskId :: "TaskRequirement \<Rightarrow> string option" where
  "reqTaskId r = map_option ref_id (req_task r)"

text \<open>
  \<^verbatim>\<open>Array.prototype.sort()\<close> without a comparison function, on task ids: the strings in
  code-unit order, every \<^verbatim>\<open>undefined\<close> after them.
\<close>

definition sortDefault :: "string option list \<Rightarrow> string option list" where
  "sortDefault ids =
     map Some (List.sort (List.map_filter (\<lambda>i. i) ids)) @ filter (\<lambda>i. i = None) ids"

definition idValue :: "string option \<Rightarrow> jv" where
  "idValue i = (case i of None \<Rightarrow> JUndef | Some s \<Rightarrow> JStr s)"

text \<open>\<^verbatim>\<open>ids.join(', ')\<close>\<close>

definition joinIds :: "string option list \<Rightarrow> string" where
  "joinIds ids = join '', '' (map (\<lambda>i. case i of None \<Rightarrow> [] | Some s \<Rightarrow> s) ids)"

definition validateTaskRequirements :: FieldValidator where
  "validateTaskRequirements = (\<lambda>override apiTask.
     case o_taskRequirements override of
       None \<Rightarrow> None
     | Some overrideReqs \<Rightarrow>
         let apiReqs = filter
               (\<lambda>r. case req_status r of None \<Rightarrow> True | Some st \<Rightarrow> ''active'' \<notin> set st)
               (case t_taskRequirements apiTask of None \<Rightarrow> [] | Some rs \<Rightarrow> rs)
         in if length apiReqs = 0 \<and> length overrideReqs > 0 then
              Some \<lparr> d_field = ''taskRequirements'', d_status = needed,
                     d_message = ''taskRequirements: API=[] (empty), Override has ''
                       @ showNat (length overrideReqs) @ '' requirement(s) - STILL NEEDED'' \<rparr>
            else if length apiReqs > 0 then
              let apiReqIds = sortDefault (map reqTaskId apiReqs);
                  overrideReqIds = sortDefault (map reqTaskId overrideReqs)
              in if stringify (JArr (map idValue apiReqIds))
                    \<noteq> stringify (JArr (map idValue overrideReqIds)) then
                   Some \<lparr> d_field = ''taskRequirements'', d_status = needed,
                          d_message = ''taskRequirements: API has different requirements (''
                            @ joinIds apiReqIds @ '') vs Override ('' @ joinIds overrideReqIds
                            @ '') - NEEDS REVIEW'' \<rparr>
                 else
                   Some \<lparr> d_field = ''taskRequirements'', d_status = fixed,
                          d_message = ''taskRequirements: FIXED IN API'' \<rparr>
            else None)"

definition FIELD_VALIDATORS :: "string comparator \<Rightarrow> FieldValidator list" where
  "FIELD_VALIDATORS lc =
     [createFieldValidator lc ''minPlayerLevel'',
      createFieldValidator lc ''name'',
      createFieldValidator lc ''wikiLink'',
      createFieldValidator lc ''map'',
      createFieldValidator lc ''experience'',
      createFieldValidator lc ''finishRewards'',
      validateTaskRequirements]"

subsection \<open>validateTaskOverride\<close>

text \<open>The details pushed for one entry \<^verbatim>\<open>[objId, objOverride]\<close> of \<^verbatim>\<open>override.objectives\<close>.\<close>

definition objectiveDetails ::
  "string comparator \<Rightarrow> TaskData \<Rightarrow> string \<times> obj \<Rightarrow> ValidationDetail list" where
  "objectiveDetails lc apiTask = (\<lambda>(objId, objOverride).
     case (case t_objectives apiTask of
             None \<Rightarrow> None
           | Some objs \<Rightarrow> find (\<lambda>o'. strictEq (get o' ''id'') (JStr objId)) objs) of
       None \<Rightarrow>
         [\<lparr> d_field = ''objective:'' @ objId, d_status = check,
            d_message = ''objective '' @ objId @ '': Not found in API - CHECK MANUALLY'' \<rparr>]
     | Some apiObj \<Rightarrow>
         concat (map (\<lambda>(f, overrideValue).
           if overrideValue = JUndef then []
           else
             let apiValue = get apiObj f;
                 isMatch = compareSubset lc overrideValue apiValue
             in [\<lparr> d_field = ''objective:'' @ objId @ '':'' @ f,
                    d_status = (if isMatch then fixed else needed),
                    d_message =
                      (if isMatch
                       then ''objective '' @ f @ '': '' @ formatValue apiValue @ '' - FIXED IN API''
                       else ''objective '' @ f @ '': API='' @ formatValue apiValue
                            @ '', Override='' @ formatValue overrideValue
                            @ '' - STILL NEEDED'') \<rparr>])
           objOverride))"

text \<open>The detail pushed for one element of \<^verbatim>\<open>override.objectivesAdd\<close>.\<close>

definition addedDetail :: "TaskData \<Rightarrow> obj \<Rightarrow> ValidationDetail" where
  "addedDetail apiTask added =
     (let apiMatch =
            (case t_objectives apiTask of
               None \<Rightarrow> None
             | Some objs \<Rightarrow>
                 find (\<lambda>o'. strictEq (get o' ''id'') (get added ''id'')
                          \<or> strictEq (get o' ''description'') (get added ''description'')) objs);
          label = toString (if truthy (get added ''id'') then get added ''id''
                            else get added ''description'')
      in if apiMatch \<noteq> None then
           \<lparr> d_field = ''objectivesAdd:'' @ label, d_status = fixed,
             d_message = ''added objective '' @ [CHR 0x27] @ toString (get added ''description'')
               @ [CHR 0x27] @ '': NOW IN API - MOVE TO OBJECTIVES OR REMOVE'' \<rparr>
         else
           \<lparr> d_field = ''objectivesAdd:'' @ label, d_status = needed,
             d_message = ''added objective '' @ [CHR 0x27] @ toString (get added ''description'')
               @ [CHR 0x27] @ '': Still missing from API - STILL NEEDED'' \<rparr>)"

definition validateTaskOverride ::
  "string comparator \<Rightarrow> string \<Rightarrow> TaskOverride \<Rightarrow> TaskData list \<Rightarrow> ValidationResult" where
  "validateTaskOverride lc taskId override apiTasks =
     (case find (\<lambda>t. t_id t = taskId) apiTasks of
        None \<Rightarrow>
          \<lparr> r_id = taskId, r_name = ''Unknown'', r_status = REMOVED_FROM_API,
            r_stillNeeded = False,
            r_details = [\<lparr> d_field = ''task'', d_status = info,
              d_message = ''Task not found in API - has been removed from tarkov.dev'' \<rparr>] \<rparr>
      | Some apiTask \<Rightarrow>
          if o_disabled override = Some True then
            \<lparr> r_id = taskId, r_name = t_name apiTask, r_status = REMOVED_FROM_API,
              r_stillNeeded = False,
              r_details = [\<lparr> d_field = ''disabled'', d_status = info,
                d_message = ''Task still in API but marked as disabled - should be removed from API or override can be removed'' \<rparr>] \<rparr>
          else
            let details = List.map_filter (\<lambda>validator. validator override apiTask)
                            (FIELD_VALIDATORS lc);
                details = details @
                  (case o_objectives override of
                     None \<Rightarrow> []
                   | Some entries \<Rightarrow> concat (map (objectiveDetails lc apiTask) entries));
                details = details @
                  (case o_objectivesAdd override of
                     None \<Rightarrow> []
                   | Some adds \<Rightarrow> map (addedDetail apiTask) adds);
                needsOverride =
                  list_ex (\<lambda>d. d_status d = needed \<or> d_status d = check) details;
                status = (if needsOverride then NEEDED else FIXED)
            in \<lparr> r_id = taskId, r_name = t_name apiTask, r_status = status,
                 r_stillNeeded = needsOverride, r_details = details \<rparr>)"


section \<open>Patch applier (overlay example)\<close>

text \<open>
  \<^verbatim>\<open>applyTaskOverlay\<close> reads and writes the task through casts to
  \<^verbatim>\<open>Record<string, unknown>\<close>, so a task and a task override are plain objects here, and
  every step is the JavaScript operation on values. An operation that throws returns
  \<^const>\<open>Inl\<close>.
\<close>

datatype error = TypeError

text \<open>
  The property read \<^verbatim>\<open>v[k]\<close> on a value that is neither \<^verbatim>\<open>undefined\<close> nor \<^verbatim>\<open>null\<close>:
  own properties of objects, elements and \<^verbatim>\<open>length\<close> of arrays and strings.
\<close>

fun member :: "jv \<Rightarrow> string \<Rightarrow> jv" where
  "member (JObj kvs) k = get kvs k"
| "member (JArr xs) k =
     (if k = ''length'' then JNum (int (length xs))
      else if isArrayIndex k \<and> parseNat k < int (length xs) then xs ! nat (parseNat k)
      else JUndef)"
| "member (JStr s) k =
     (if k = ''length'' then JNum (int (length s))
      else if isArrayIndex k \<and> parseNat k < int (length s) then JStr [s ! nat (parseNat k)]
      else JUndef)"
| "member v k = JUndef"

text \<open>
  The own enumerable properties of a value, as \<^verbatim>\<open>Object.entries(v)\<close> and the object
  spread \<^verbatim>\<open>{...v}\<close> enumerate them.
\<close>

fun ownEntries :: "jv \<Rightarrow> obj" where
  "ownEntries (JObj kvs) = kvs"
| "ownEntries (JArr xs) = zip (map showNat [0..<length xs]) xs"
| "ownEntries (JStr s) = zip (map showNat [0..<length s]) (map (\<lambda>c. JStr [c]) s)"
| "ownEntries v = []"

text \<open>The array spread \<^verbatim>\<open>[...v]\<close>: only arrays and strings are iterable.\<close>

fun iterate :: "jv \<Rightarrow> error + jv list" where
  "iterate (JArr xs) = Inr xs"
| "iterate (JStr s) = Inr (map (\<lambda>c. JStr [c]) s)"
| "iterate v = Inl TypeError"

text \<open>\<^verbatim>\<open>Array.prototype.map\<close> with a callback that may throw.\<close>

fun mapM :: "('a \<Rightarrow> error + 'b) \<Rightarrow> 'a list \<Rightarrow> error + 'b list" where
  "mapM f [] = Inr []"
| "mapM f (x # xs) =
     (case f x of
        Inl e \<Rightarrow> Inl e
      | Inr y \<Rightarrow> (case mapM f xs of Inl e \<Rightarrow> Inl e | Inr ys \<Rightarrow> Inr (y # ys)))"

text \<open>
  A spread element \<^verbatim>\<open>...v\<close> of an object literal copies the own properties of \<open>v\<close> onto
  the object built so far: \<^verbatim>\<open>{ ...a }\<close> is \<open>spreadInto [] a\<close> and \<^verbatim>\<open>{ ...a, ...b }\<close> is
  \<open>spreadInto (spreadInto [] a) b\<close>.
\<close>

definition spreadInto :: "obj \<Rightarrow> jv \<Rightarrow> obj" where
  "spreadInto r v = fold (\<lambda>(k, x) r. obj_set r k x) (ownEntries v) r"

record Overlay =
  ov_tasks :: "obj option"

text \<open>The callback of \<^verbatim>\<open>task.objectives.map\<close>.\<close>

definition patchObjective :: "jv \<Rightarrow> jv \<Rightarrow> error + jv" where
  "patchObjective taskOverride objective =
     (if objective = JUndef \<or> objective = JNull then Inl TypeError
      else
        let patch = member (member taskOverride ''objectives'') (toString (member objective ''id''))
        in if \<not> truthy patch then Inr objective
           else Inr (JObj (spreadInto (spreadInto [] objective) patch)))"

definition applyTaskOverlay :: "obj \<Rightarrow> Overlay \<Rightarrow> error + obj option" where
  "applyTaskOverlay task overlay =
     (let taskOverride =
            (case ov_tasks overlay of
               None \<Rightarrow> JUndef
             | Some tasks \<Rightarrow> get tasks (toString (get task ''id'')))
      in if \<not> truthy taskOverride then Inr (Some task)
         else if member taskOverride ''disabled'' = JBool True then Inr None
         else
           let result = spreadInto [] (JObj task);
               result = fold (\<lambda>(key, value) result.
                          if key = ''objectives'' \<or> key = ''objectivesAdd'' then result
                          else if key = ''minPlayerLevel'' \<and> typeof value = ''number''
                            then obj_set result ''minPlayerLevel'' value
                          else if key = ''map'' \<and> truthy value
                            then obj_set result ''map'' value
                          else obj_set result key value)
                        (ownEntries taskOverride) result
           in case (if truthy (member taskOverride ''objectives'')
                       \<and> truthy (get task ''objectives'')
                    then (case get task ''objectives'' of
                            JArr objectives \<Rightarrow>
                              (case mapM (patchObjective taskOverride) objectives of
                                 Inl e \<Rightarrow> Inl e
                               | Inr patched \<Rightarrow> Inr (obj_set result ''objectives'' (JArr patched)))
                          | _ \<Rightarrow> Inl TypeError)
                    else Inr result) of
                Inl e \<Rightarrow> Inl e
              | Inr result \<Rightarrow>
                  if truthy (member taskOverride ''objectivesAdd'') then
                    (case iterate (if truthy (get result ''objectives'')
                                   then get result ''objectives'' else JArr []) of
                       Inl e \<Rightarrow> Inl e
                     | Inr old \<Rightarrow>
                         (case iterate (member taskOverride ''objectivesAdd'') of
                            Inl e \<Rightarrow> Inl e
                          | Inr added \<Rightarrow>
                              Inr (Some (obj_set result ''objectives'' (JArr (old @ added))))))
                  else Inr (Some result))"

definition applyOverlayToTasks :: "obj list \<Rightarrow> Overlay \<Rightarrow> error + obj list" where
  "applyOverlayToTasks tasks overlay =
     (case mapM (\<lambda>task. applyTaskOverlay task overlay) tasks of
        Inl e \<Rightarrow> Inl e
      | Inr results \<Rightarrow> Inr (map the (filter (\<lambda>task. task \<noteq> None) results)))"


section \<open>Example inputs\<close>

text \<open>
  The inputs of the specification's scenarios: an override that declares nothing, a
  requirement on task \<open>X\<close> that is already active, and a live task \<open>T\<close> of level 10 with
  that requirement.
\<close>

definition noOverride :: TaskOverride where
  "noOverride =
     \<lparr> o_minPlayerLevel = JUndef, o_name = JUndef, o_wikiLink = JUndef, o_map = JUndef,
       o_experience = JUndef, o_finishRewards = JUndef, o_taskRequirements = None,
       o_objectives = None, o_objectivesAdd = None, o_disabled = None \<rparr>"

definition requirementX :: TaskRequirement where
  "requirementX = \<lparr> req_task = Some \<lparr> ref_id = ''X'' \<rparr>, req_status = Some [''active''] \<rparr>"

definition liveTask :: TaskData where
  "liveTask =
     \<lparr> t_id = ''T'', t_name = ''Task'', t_minPlayerLevel = JNum 10, t_wikiLink = JUndef,
       t_map = JUndef, t_experience = JUndef, t_finishRewards = JUndef,
       t_taskRequirements = Some [requirementX], t_objectives = None \<rparr>"

text \<open>
  A task with two objectives, a task the overlays do not mention, and three overlays for
  task \<open>T\<close>: one that patches objective \<open>b\<close> and adds objective \<open>z\<close>, one that disables
  the task, one that sets \<^verbatim>\<open>disabled: false\<close> and a level.
\<close>

definition exampleTask :: obj where
  "exampleTask =
     [(''id'', JStr ''T''), (''name'', JStr ''Task''), (''minPlayerLevel'', JNum 3),
      (''objectives'', JArr [JObj [(''id'', JStr ''a''), (''count'', JNum 1)],
                             JObj [(''id'', JStr ''b''), (''count'', JNum 2)]])]"

definition otherTask :: obj where
  "otherTask = [(''id'', JStr ''U''), (''name'', JStr ''Other''), (''objectives'', JArr [])]"

definition patchOverlay :: Overlay where
  "patchOverlay =
     \<lparr> ov_tasks = Some [(''T'', JObj
         [(''objectives'', JObj [(''b'', JObj [(''count'', JNum 5)])]),
          (''objectivesAdd'', JArr [JObj [(''id'', JStr ''z''), (''description'', JStr ''New'')]])])] \<rparr>"

definition disabledOverlay :: Overlay where
  "disabledOverlay = \<lparr> ov_tasks = Some [(''T'', JObj [(''disabled'', JBool True)])] \<rparr>"

definition enabledOverlay :: Overlay where
  "enabledOverlay =
     \<lparr> ov_tasks = Some [(''T'', JObj [(''disabled'', JBool False), (''minPlayerLevel'', JNum 10)])] \<rparr>"

section \<open>Properties of the value model\<close>

subsection \<open>Stable sorting by a key\<close>

lemma insort_decorate:
  "Sorting_Algorithms.insort (key fst lc) (f y, y) (map (\<lambda>x. (f x, x)) zs) =
   map (\<lambda>x. (f x, x)) (Sorting_Algorithms.insort (key f lc) y zs)"
  by (induction zs) simp_all

lemma sort_decorate:
  "map snd (Sorting_Algorithms.sort (key fst lc) (map (\<lambda>x. (f x, x)) ys)) =
   Sorting_Algorithms.sort (key f lc) ys"
proof -
  have "Sorting_Algorithms.sort (key fst lc) (map (\<lambda>x. (f x, x)) ys) =
        map (\<lambda>x. (f x, x)) (Sorting_Algorithms.sort (key f lc) ys)"
    by (induction ys) (simp_all add: insort_decorate)
  then show ?thesis by (simp add: comp_def)
qed

lemma normalizeValue_JArr:
  "normalizeValue lc (JArr xs) =
   JArr (Sorting_Algorithms.sort (key sortKey lc) (map (normalizeValue lc) xs))"
  by (simp add: sort_decorate)

lemma sort_sorted_id:
  "Sorting_Algorithms.sorted cmp xs \<Longrightarrow> Sorting_Algorithms.sort cmp xs = xs"
  by (rule sort_eqI) simp_all

lemma filter_all_equal:
  "\<forall>z \<in> set l. P z \<longleftrightarrow> z = y \<Longrightarrow> filter P l = replicate (count (mset l) y) y"
  by (induction l) auto

subsection \<open>Property assignment\<close>

lemma insertIndexKey_split:
  "\<exists>pre post. kvs = pre @ post \<and> insertIndexKey k v kvs = pre @ (k, v) # post"
proof (induction kvs)
  case Nil
  show ?case by simp
next
  case (Cons a kvs)
  then obtain pre post where pp: "kvs = pre @ post" "insertIndexKey k v kvs = pre @ (k, v) # post"
    by blast
  obtain k' v' where a: "a = (k', v')" by (cases a)
  show ?case
  proof (cases "isArrayIndex k' \<and> parseNat k' < parseNat k")
    case True
    then have "a # kvs = (a # pre) @ post \<and> insertIndexKey k v (a # kvs) = (a # pre) @ (k, v) # post"
      using pp a by simp
    then show ?thesis by blast
  next
    case False
    then have "a # kvs = [] @ (a # kvs) \<and> insertIndexKey k v (a # kvs) = [] @ (k, v) # (a # kvs)"
      using a by auto
    then show ?thesis by blast
  qed
qed

lemma obj_set_new:
  assumes "k \<notin> set (keys kvs)"
  shows "\<exists>pre post. kvs = pre @ post \<and> obj_set kvs k v = pre @ (k, v) # post"
proof (cases "isArrayIndex k")
  case True
  then show ?thesis using assms insertIndexKey_split[of kvs k v] by (simp add: obj_set_def)
next
  case False
  then have "kvs = kvs @ [] \<and> obj_set kvs k v = kvs @ (k, v) # []"
    using assms by (simp add: obj_set_def)
  then show ?thesis by blast
qed

lemma keys_update_all:
  "keys (map (\<lambda>(k', v'). if k' = k then (k', v) else (k', v')) kvs) = keys kvs"
  by (induction kvs) (auto simp: keys_def)

lemma obj_set_old:
  "k \<in> set (keys kvs) \<Longrightarrow>
   obj_set kvs k v = map (\<lambda>(k', v'). if k' = k then (k', v) else (k', v')) kvs"
  by (simp add: obj_set_def)

lemma set_keys_obj_set: "set (keys (obj_set kvs k v)) = insert k (set (keys kvs))"
proof (cases "k \<in> set (keys kvs)")
  case True
  then show ?thesis by (simp add: obj_set_old keys_update_all insert_absorb)
next
  case False
  from obj_set_new[OF this, of v] obtain pre post where
    "kvs = pre @ post" "obj_set kvs k v = pre @ (k, v) # post" by blast
  then show ?thesis by (auto simp: keys_def)
qed

lemma distinct_keys_obj_set:
  assumes "distinct (keys kvs)"
  shows "distinct (keys (obj_set kvs k v))"
proof (cases "k \<in> set (keys kvs)")
  case True
  then show ?thesis using assms by (simp add: obj_set_old keys_update_all)
next
  case False
  from obj_set_new[OF this, of v] obtain pre post where
    pp: "kvs = pre @ post" "obj_set kvs k v = pre @ (k, v) # post" by blast
  then show ?thesis using assms False by (auto simp: keys_def)
qed

lemma map_of_update_all_other:
  "k' \<noteq> k \<Longrightarrow>
   map_of (map (\<lambda>(k', v'). if k' = k then (k', v) else (k', v')) kvs) k' = map_of kvs k'"
  by (induction kvs) auto

lemma map_of_update_all_same:
  "k \<in> set (keys kvs) \<Longrightarrow>
   map_of (map (\<lambda>(k', v'). if k' = k then (k', v) else (k', v')) kvs) k = Some v"
  by (induction kvs) (auto simp: keys_def)

lemma map_of_obj_set:
  "map_of (obj_set kvs k v) k' = (if k' = k then Some v else map_of kvs k')"
proof (cases "k \<in> set (keys kvs)")
  case True
  then show ?thesis by (simp add: obj_set_old map_of_update_all_other map_of_update_all_same)
next
  case False
  from obj_set_new[OF this, of v] obtain pre post where
    pp: "kvs = pre @ post" "obj_set kvs k v = pre @ (k, v) # post" by blast
  have "map_of pre k = None" using False pp(1) by (simp add: keys_def map_of_eq_None_iff)
  then show ?thesis using pp by (auto simp: map_add_def split: option.splits)
qed

lemma get_obj_set: "get (obj_set kvs k v) k' = (if k' = k then v else get kvs k')"
  by (simp add: get_def map_of_obj_set)

lemma update_all_same:
  "\<forall>(k', v') \<in> set ys. k' = k \<longrightarrow> v' = v \<Longrightarrow>
   map (\<lambda>(k', v'). if k' = k then (k', v) else (k', v')) ys = ys"
  by (induction ys) auto

lemma obj_set_vals:
  assumes "(k, v') \<in> set (obj_set kvs k v)"
  shows "v' = v"
proof (cases "k \<in> set (keys kvs)")
  case True
  then show ?thesis using assms by (auto simp: obj_set_old split: if_splits)
next
  case False
  from obj_set_new[OF this, of v] obtain pre post where
    pp: "kvs = pre @ post" "obj_set kvs k v = pre @ (k, v) # post" by blast
  then show ?thesis using assms False by (auto simp: keys_def image_iff)
qed

lemma obj_set_idem: "obj_set (obj_set kvs k v) k v = obj_set kvs k v"
proof -
  have k: "k \<in> set (keys (obj_set kvs k v))"
    by (simp add: set_keys_obj_set)
  have "map (\<lambda>(k', v'). if k' = k then (k', v) else (k', v')) (obj_set kvs k v) = obj_set kvs k v"
    by (rule update_all_same) (auto dest: obj_set_vals)
  then show ?thesis using k by (simp add: obj_set_old)
qed


lemma set_keys_fold_obj_set:
  "set (keys (fold (\<lambda>k acc. obj_set acc k (f k)) ks acc)) = set ks \<union> set (keys acc)"
  by (induction ks arbitrary: acc) (auto simp: set_keys_obj_set)

lemma distinct_keys_fold_obj_set:
  "distinct (keys acc) \<Longrightarrow> distinct (keys (fold (\<lambda>k acc. obj_set acc k (f k)) ks acc))"
  by (induction ks arbitrary: acc) (auto simp: distinct_keys_obj_set)

lemma get_fold_obj_set:
  "get (fold (\<lambda>k acc. obj_set acc k (f k)) ks acc) k = (if k \<in> set ks then f k else get acc k)"
proof (induction ks arbitrary: acc rule: rev_induct)
  case Nil
  show ?case by simp
next
  case (snoc x xs)
  then show ?case by (simp add: get_obj_set)
qed

lemma fold_obj_set_remdups:
  "linorder_class.sorted ks \<Longrightarrow>
   fold (\<lambda>k acc. obj_set acc k (f k)) (remdups ks) acc = fold (\<lambda>k acc. obj_set acc k (f k)) ks acc"
proof (induction ks arbitrary: acc)
  case Nil
  show ?case by simp
next
  case (Cons k ks)
  show ?case
  proof (cases "k \<in> set ks")
    case False
    then show ?thesis using Cons by simp
  next
    case True
    then obtain ks' where ks: "ks = k # ks'"
      using Cons.prems by (cases ks) (auto simp: antisym)
    have "fold (\<lambda>k acc. obj_set acc k (f k)) (remdups (k # ks)) acc =
          fold (\<lambda>k acc. obj_set acc k (f k)) ks acc"
      using True Cons by simp
    also have "\<dots> = fold (\<lambda>k acc. obj_set acc k (f k)) (k # ks) acc"
      by (simp add: ks obj_set_idem)
    finally show ?thesis .
  qed
qed

lemma sort_distinct_eq:
  fixes ys :: "'a::linorder list"
  assumes "distinct ys" "set ys = set ks" "linorder_class.sorted ks"
  shows "List.sort ys = remdups ks"
proof -
  have "List.sort ys = sorted_list_of_set (set ys)"
    using assms(1) by (simp add: sorted_list_of_set_sort_remdups distinct_remdups_id)
  also have "\<dots> = List.sort (remdups ks)"
    by (simp add: assms(2) sorted_list_of_set_sort_remdups)
  also have "\<dots> = remdups ks"
    using assms(3) by (simp add: sorted_remdups sorted_sort_id)
  finally show ?thesis .
qed

lemma get_in_values: "k \<in> set (keys kvs) \<Longrightarrow> \<exists>kv \<in> set kvs. get kvs k \<in> Basic_BNFs.snds kv"
  by (induction kvs) (auto simp: keys_def get_def)

lemma normalizeValue_JObj:
  "normalizeValue lc (JObj kvs) =
   JObj (fold (\<lambda>k acc. obj_set acc k (normalizeValue lc (get kvs k))) (List.sort (keys kvs)) [])"
  by simp

subsection \<open>Copying and merging objects\<close>

lemma keys_Nil: "keys [] = []"
  by (simp add: keys_def)

lemma keys_Cons: "keys ((k, v) # kvs) = k # keys kvs"
  by (simp add: keys_def)

lemma get_Cons: "get ((k0, v0) # kvs) k = (if k = k0 then v0 else get kvs k)"
  by (simp add: get_def)

lemma get_absent: "k \<notin> set (keys kvs) \<Longrightarrow> get kvs k = JUndef"
  by (simp add: get_def keys_def map_of_eq_None_iff [THEN iffD2])

lemma get_fold_entries:
  "distinct (keys kvs) \<Longrightarrow>
   get (fold (\<lambda>(k, x) r. obj_set r k x) kvs acc) k =
     (if k \<in> set (keys kvs) then get kvs k else get acc k)"
proof (induction kvs arbitrary: acc)
  case Nil
  show ?case by (simp add: keys_def)
next
  case (Cons kv kvs)
  obtain k0 v0 where kv: "kv = (k0, v0)" by (cases kv)
  have d: "distinct (keys kvs)" and n: "k0 \<notin> set (keys kvs)"
    using Cons.prems kv by (simp_all add: keys_def)
  show ?case
    using Cons.IH [OF d, of "obj_set acc k0 v0"] n
    by (auto simp: kv get_Cons get_obj_set keys_def)
qed

lemma set_keys_fold_entries:
  "set (keys (fold (\<lambda>(k, x) r. obj_set r k x) kvs acc)) = set (keys kvs) \<union> set (keys acc)"
proof (induction kvs arbitrary: acc)
  case Nil
  show ?case by (simp add: keys_Nil)
next
  case (Cons kv kvs)
  obtain k0 v0 where kv: "kv = (k0, v0)" by (cases kv)
  show ?case
    using Cons [of "obj_set acc k0 v0"] by (auto simp: kv set_keys_obj_set keys_Cons)
qed

lemma get_copy: "distinct (keys kvs) \<Longrightarrow> get (spreadInto [] (JObj kvs)) k = get kvs k"
  by (simp add: spreadInto_def get_fold_entries get_absent) (simp add: get_def)

text \<open>The three branches of the loop body assign alike.\<close>

lemma overlay_step:
  "(\<lambda>(key, value) result.
      if key = ''objectives'' \<or> key = ''objectivesAdd'' then result
      else if key = ''minPlayerLevel'' \<and> typeof value = ''number''
        then obj_set result ''minPlayerLevel'' value
      else if key = ''map'' \<and> truthy value then obj_set result ''map'' value
      else obj_set result key value) =
   (\<lambda>(key, value) result.
      if key = ''objectives'' \<or> key = ''objectivesAdd'' then result
      else obj_set result key value)"
  by (auto simp: fun_eq_iff)

lemma get_fold_overlay_step:
  "distinct (keys kvs) \<Longrightarrow>
   get (fold (\<lambda>(key, value) result.
          if key = ''objectives'' \<or> key = ''objectivesAdd'' then result
          else obj_set result key value) kvs acc) k =
     (if k \<in> set (keys kvs) \<and> k \<noteq> ''objectives'' \<and> k \<noteq> ''objectivesAdd''
      then get kvs k else get acc k)"
proof (induction kvs arbitrary: acc)
  case Nil
  show ?case by (simp add: keys_def)
next
  case (Cons kv kvs)
  obtain k0 v0 where kv: "kv = (k0, v0)" by (cases kv)
  have d: "distinct (keys kvs)" and n: "k0 \<notin> set (keys kvs)"
    using Cons.prems kv by (simp_all add: keys_def)
  show ?case
    using Cons.IH [OF d] n
    by (auto simp: kv get_Cons get_obj_set keys_def)
qed

lemma get_objectives_fold_overlay_step:
  "get (fold (\<lambda>(key, value) result.
          if key = ''objectives'' \<or> key = ''objectivesAdd'' then result
          else obj_set result key value) kvs acc) ''objectives'' = get acc ''objectives''"
proof (induction kvs arbitrary: acc)
  case Nil
  show ?case by simp
next
  case (Cons kv kvs)
  obtain k0 v0 where kv: "kv = (k0, v0)" by (cases kv)
  show ?case using Cons [of "obj_set acc k0 v0"] Cons [of acc]
    by (auto simp: kv get_obj_set)
qed

lemma keys_fold_overlay_step:
  "k \<in> set (keys kvs) \<Longrightarrow> k \<noteq> ''objectives'' \<Longrightarrow> k \<noteq> ''objectivesAdd'' \<Longrightarrow>
   k \<in> set (keys (fold (\<lambda>(key, value) result.
          if key = ''objectives'' \<or> key = ''objectivesAdd'' then result
          else obj_set result key value) kvs acc))"
proof -
  have mono: "set (keys acc) \<subseteq> set (keys (fold (\<lambda>(key, value) result.
          if key = ''objectives'' \<or> key = ''objectivesAdd'' then result
          else obj_set result key value) kvs acc))" for kvs acc
  proof (induction kvs arbitrary: acc)
    case Nil
    show ?case by simp
  next
    case (Cons kv kvs)
    obtain k0 v0 where kv: "kv = (k0, v0)" by (cases kv)
    show ?case using Cons [of "obj_set acc k0 v0"] Cons [of acc]
      by (auto simp: kv set_keys_obj_set)
  qed
  assume "k \<in> set (keys kvs)" "k \<noteq> ''objectives''" "k \<noteq> ''objectivesAdd''"
  then show ?thesis
  proof (induction kvs arbitrary: acc)
    case Nil
    then show ?case by (simp add: keys_def)
  next
    case (Cons kv kvs)
    obtain k0 v0 where kv: "kv = (k0, v0)" by (cases kv)
    show ?case
    proof (cases "k = k0")
      case True
      then show ?thesis using Cons.prems mono [of "obj_set acc k0 v0" kvs]
        by (auto simp: kv set_keys_obj_set)
    next
      case False
      then have "k \<in> set (keys kvs)" using Cons.prems kv by (simp add: keys_def)
      then show ?thesis using Cons.IH Cons.prems by (simp add: kv)
    qed
  qed
qed

lemma mapM_Inr: "(\<forall>x \<in> set xs. f x = Inr (g x)) \<Longrightarrow> mapM f xs = Inr (map g xs)"
  by (induction xs) simp_all

lemma mapM_eq_Inr_iff: "mapM f xs = Inr ys \<longleftrightarrow> map f xs = map Inr ys"
proof (induction xs arbitrary: ys)
  case Nil
  show ?case by auto
next
  case (Cons x xs)
  show ?case
  proof (cases ys)
    case Nil
    then show ?thesis by (auto split: sum.splits)
  next
    case (Cons y ys')
    show ?thesis
      using Cons.IH [of ys'] by (cases "mapM f xs") (auto simp: Cons split: sum.splits)
  qed
qed

lemma get_spread_merge:
  assumes "distinct (keys a)" "distinct (keys p)"
  shows "get (spreadInto (spreadInto [] (JObj a)) (JObj p)) k =
           (if k \<in> set (keys p) then get p k else get a k)"
  using assms by (simp add: spreadInto_def get_fold_entries get_absent keys_Nil)

subsection \<open>Serialized id lists\<close>
















section \<open>Normalization\<close>

text \<open>
  C7. Normalization is idempotent: for every value \<open>x\<close> (the JSON-compatible ones and
  \<^verbatim>\<open>undefined\<close> alike) and every consistent collation,
  \<^verbatim>\<open>normalize(normalize(x))\<close> is \<^verbatim>\<open>normalize(x)\<close>.
\<close>

theorem normalize_idempotent:
  "normalizeValue lc (normalizeValue lc x) = normalizeValue lc x"
proof (induction x)
  case (JArr xs)
  let ?cmp = "key sortKey lc"
  let ?ys = "Sorting_Algorithms.sort ?cmp (map (normalizeValue lc) xs)"
  have "map (normalizeValue lc) ?ys = ?ys"
  proof (rule map_idI)
    fix y assume "y \<in> set ?ys"
    then obtain x where "x \<in> set xs" "y = normalizeValue lc x" by auto
    then show "normalizeValue lc y = y" using JArr by simp
  qed
  moreover have "Sorting_Algorithms.sort ?cmp ?ys = ?ys"
    by (rule sort_sorted_id) simp
  ultimately show ?case by (simp only: normalizeValue_JArr)
next
  case (JObj kvs)
  let ?f = "\<lambda>k. normalizeValue lc (get kvs k)"
  let ?ks = "List.sort (keys kvs)"
  let ?B = "fold (\<lambda>k acc. obj_set acc k (?f k)) ?ks []"
  let ?g = "\<lambda>k. normalizeValue lc (get ?B k)"
  have keys2: "List.sort (keys ?B) = remdups ?ks"
  proof (rule sort_distinct_eq)
    show "distinct (keys ?B)" by (rule distinct_keys_fold_obj_set) (simp add: keys_def)
    show "set (keys ?B) = set ?ks" by (simp add: set_keys_fold_obj_set) (simp add: keys_def)
    show "linorder_class.sorted ?ks" by simp
  qed
  have "fold (\<lambda>k acc. obj_set acc k (?g k)) (remdups ?ks) [] =
        fold (\<lambda>k acc. obj_set acc k (?f k)) (remdups ?ks) []"
  proof (rule fold_cong[OF refl refl])
    fix k assume "k \<in> set (remdups ?ks)"
    then have k: "k \<in> set (keys kvs)" by simp
    then obtain kv where "kv \<in> set kvs" "get kvs k \<in> Basic_BNFs.snds kv"
      using get_in_values by blast
    then have "normalizeValue lc (?f k) = ?f k" using JObj by blast
    moreover have "get ?B k = ?f k" using k by (simp add: get_fold_obj_set)
    ultimately show "(\<lambda>acc. obj_set acc k (?g k)) = (\<lambda>acc. obj_set acc k (?f k))" by simp
  qed
  also have "\<dots> = ?B"
    by (rule fold_obj_set_remdups) simp
  finally have "fold (\<lambda>k acc. obj_set acc k (?g k)) (List.sort (keys ?B)) [] = ?B"
    by (simp only: keys2)
  then show ?case by (simp only: normalizeValue_JObj)
qed simp_all


text \<open>
  C6, as stated, fails for arrays: the sort key of a scalar is its string form, so the number
  \<open>1\<close> and the string \<open>"1"\<close> have the same key, the stable sort leaves them in their
  input order, and the two orders of the array \<open>[1, "1"]\<close> normalize to different values
  with different serializations. The keys being the same string, this does not depend on
  the collation.
\<close>

theorem normalize_order_counterexample:
  "mset [JNum 1, JStr ''1''] = mset [JStr ''1'', JNum 1]
   \<and> normalizeValue default (JArr [JNum 1, JStr ''1''])
       \<noteq> normalizeValue default (JArr [JStr ''1'', JNum 1])
   \<and> stringify (normalizeValue default (JArr [JNum 1, JStr ''1'']))
       \<noteq> stringify (normalizeValue default (JArr [JStr ''1'', JNum 1]))"
  by (simp add: sortKey_def showInt_def showNat.simps quoteJSON_def)

text \<open>
  C6, amended. Normalization is order-insensitive for every object: an object and any
  reordering of its properties normalize to the same value. For arrays it is
  order-insensitive whenever elements whose sort keys the collation ties normalize to the
  same value: for every such array \<open>a\<close> and every permutation \<open>a'\<close> of \<open>a\<close>,
  \<^verbatim>\<open>normalize(a)\<close> is \<^verbatim>\<open>normalize(a')\<close>.
\<close>

theorem normalize_order_insensitive:
  "(mset a = mset a'
      \<and> (\<forall>x \<in> set a. \<forall>y \<in> set a.
            compare lc (sortKey (normalizeValue lc x)) (sortKey (normalizeValue lc y)) = Equiv
            \<longrightarrow> normalizeValue lc x = normalizeValue lc y)
    \<longrightarrow> normalizeValue lc (JArr a) = normalizeValue lc (JArr a'))
   \<and> (distinct (keys ob) \<and> mset ob = mset ob'
    \<longrightarrow> normalizeValue lc (JObj ob) = normalizeValue lc (JObj ob'))"
proof (intro conjI impI)
  assume h: "mset a = mset a'
      \<and> (\<forall>x \<in> set a. \<forall>y \<in> set a.
            compare lc (sortKey (normalizeValue lc x)) (sortKey (normalizeValue lc y)) = Equiv
            \<longrightarrow> normalizeValue lc x = normalizeValue lc y)"
  let ?cmp = "key sortKey lc"
  let ?xs = "map (normalizeValue lc) a"
  let ?ys = "map (normalizeValue lc) a'"
  have m: "mset ?ys = mset ?xs" using h by simp
  have ties: "compare ?cmp y z = Equiv \<longleftrightarrow> z = y" if yz: "y \<in> set ?xs" "z \<in> set ?xs" for y z
  proof
    assume e: "compare ?cmp y z = Equiv"
    obtain x x' where x: "x \<in> set a" "y = normalizeValue lc x"
      and x': "x' \<in> set a" "z = normalizeValue lc x'"
      using yz by auto
    have "compare lc (sortKey (normalizeValue lc x)) (sortKey (normalizeValue lc x')) = Equiv"
      using e x x' by simp
    then have "normalizeValue lc x = normalizeValue lc x'" using h x(1) x'(1) by blast
    then show "z = y" using x x' by simp
  next
    assume "z = y"
    then show "compare ?cmp y z = Equiv" by simp
  qed
  have "Sorting_Algorithms.sort ?cmp ?ys = Sorting_Algorithms.sort ?cmp ?xs"
  proof (rule sort_eqI)
    show "mset ?ys = mset (Sorting_Algorithms.sort ?cmp ?xs)" using m by simp
    show "Sorting_Algorithms.sorted ?cmp (Sorting_Algorithms.sort ?cmp ?xs)" by simp
    fix y assume y: "y \<in> set ?ys"
    have sx: "set ?ys = set ?xs" using m by (rule mset_eq_setD)
    have yx: "y \<in> set ?xs" using y sx by simp
    have a1: "filter (\<lambda>z. compare ?cmp y z = Equiv) ?ys = replicate (count (mset ?ys) y) y"
      by (rule filter_all_equal) (use ties yx sx in blast)
    have a2: "filter (\<lambda>z. compare ?cmp y z = Equiv) ?xs = replicate (count (mset ?xs) y) y"
      by (rule filter_all_equal) (use ties yx in blast)
    have a3: "filter (\<lambda>z. compare ?cmp y z = Equiv) (Sorting_Algorithms.sort ?cmp ?xs) =
        filter (\<lambda>z. compare ?cmp y z = Equiv) ?xs"
      by (rule stable_sort)
    show "filter (\<lambda>z. compare ?cmp y z = Equiv) ?ys =
        filter (\<lambda>z. compare ?cmp y z = Equiv) (Sorting_Algorithms.sort ?cmp ?xs)"
      by (simp only: a1 a2 a3 m)
  qed
  then show "normalizeValue lc (JArr a) = normalizeValue lc (JArr a')"
    by (simp only: normalizeValue_JArr)
next
  assume h: "distinct (keys ob) \<and> mset ob = mset ob'"
  have mk: "mset (keys ob) = mset (keys ob')"
    using h by (simp add: keys_def)
  have d': "distinct (keys ob')"
    using h mset_eq_imp_distinct_iff [OF mk] by simp
  have "set ob = set ob'" using h mset_eq_setD by blast
  then have "map_of ob = map_of ob'"
    using h d' by (simp add: keys_def map_of_inject_set)
  then have g: "get ob = get ob'" by (simp add: fun_eq_iff get_def)
  have "List.sort (keys ob') = List.sort (keys ob)"
    by (rule properties_for_sort) (simp_all add: mk)
  then show "normalizeValue lc (JObj ob) = normalizeValue lc (JObj ob')"
    by (simp only: normalizeValue_JObj g)
qed

theorem normalize_order_insensitive_witness:
  "normalizeValue default (JArr [JStr ''b'', JNum 1, JStr ''a''])
     = normalizeValue default (JArr [JNum 1, JStr ''a'', JStr ''b''])
   \<and> normalizeValue default (JObj [(''z'', JNum 1), (''a'', JNull)])
     = normalizeValue default (JObj [(''a'', JNull), (''z'', JNum 1)])"
proof -
  have keys: "sortKey (JStr ''b'') = ''b''" "sortKey (JNum 1) = ''1''" "sortKey (JStr ''a'') = ''a''"
    by (simp_all add: sortKey_def showInt_def showNat.simps)
  have h1: "mset [JStr ''b'', JNum 1, JStr ''a''] = mset [JNum 1, JStr ''a'', JStr ''b'']
      \<and> (\<forall>x \<in> set [JStr ''b'', JNum 1, JStr ''a'']. \<forall>y \<in> set [JStr ''b'', JNum 1, JStr ''a''].
            compare default (sortKey (normalizeValue default x))
              (sortKey (normalizeValue default y)) = Equiv
            \<longrightarrow> normalizeValue default x = normalizeValue default y)"
    by (simp add: keys)
  have h2: "distinct (keys [(''z'', JNum 1), (''a'', JNull)])
      \<and> mset [(''z'', JNum 1), (''a'', JNull)] = mset [(''a'', JNull), (''z'', JNum 1)]"
    by (simp add: keys_def)
  show ?thesis
    using normalize_order_insensitive
      [where lc = "default" and a = "[JStr ''b'', JNum 1, JStr ''a'']"
         and a' = "[JNum 1, JStr ''a'', JStr ''b'']"
         and ob = "[(''z'', JNum 1), (''a'', JNull)]" and ob' = "[(''a'', JNull), (''z'', JNum 1)]"]
      h1 h2
    by blast
qed

section \<open>Subset comparison\<close>


section \<open>Reconciliation status\<close>

text \<open>
  C1. For every task id, override and live task list, the result of
  \<^const>\<open>validateTaskOverride\<close> has status \<open>REMOVED_FROM_API\<close> iff no live task has the id
  (that is, \<^verbatim>\<open>find\<close> finds none) or the override has \<^verbatim>\<open>disabled === true\<close>; otherwise the
  status is \<open>NEEDED\<close> iff some detail of the result has status \<open>needed\<close> or \<open>check\<close>, and
  \<open>FIXED\<close> if none has; and \<^verbatim>\<open>stillNeeded\<close> is true iff the status is \<open>NEEDED\<close>.
\<close>

theorem validateTaskOverride_status:
  "r_status (validateTaskOverride lc taskId override apiTasks) =
     (if find (\<lambda>t. t_id t = taskId) apiTasks = None \<or> o_disabled override = Some True
      then REMOVED_FROM_API
      else if list_ex (\<lambda>d. d_status d = needed \<or> d_status d = check)
                (r_details (validateTaskOverride lc taskId override apiTasks))
      then NEEDED else FIXED)
   \<and> (find (\<lambda>t. t_id t = taskId) apiTasks = None \<longleftrightarrow> taskId \<notin> t_id ` set apiTasks)
   \<and> (r_stillNeeded (validateTaskOverride lc taskId override apiTasks) \<longleftrightarrow>
        r_status (validateTaskOverride lc taskId override apiTasks) = NEEDED)"
proof (cases "find (\<lambda>t. t_id t = taskId) apiTasks")
  case None
  have "taskId \<notin> t_id ` set apiTasks"
    using None by (auto simp: find_None_iff)
  then show ?thesis
    unfolding validateTaskOverride_def None by simp
next
  case (Some apiTask)
  have present: "taskId \<in> t_id ` set apiTasks"
    using Some by (auto simp: find_Some_iff)
  show ?thesis
  proof (cases "o_disabled override = Some True")
    case True
    then show ?thesis using present unfolding validateTaskOverride_def Some by simp
  next
    case False
    then show ?thesis using present unfolding validateTaskOverride_def Some by (simp add: Let_def)
  qed
qed


section \<open>The taskRequirements validator\<close>



text \<open>
  C9. When the override declares \<^verbatim>\<open>taskRequirements\<close> as an empty list and no live
  requirement is left after the active ones are dropped, the validator emits no detail;
  so a task whose override declares nothing but an empty \<^verbatim>\<open>taskRequirements\<close> list is
  reported \<open>FIXED\<close> with an empty list of details.
\<close>

theorem empty_taskRequirements_no_detail:
  assumes "o_taskRequirements override = Some []"
    and "filter (\<lambda>r. case req_status r of None \<Rightarrow> True | Some st \<Rightarrow> ''active'' \<notin> set st)
          (case t_taskRequirements apiTask of None \<Rightarrow> [] | Some rs \<Rightarrow> rs) = []"
  shows "validateTaskRequirements override apiTask = None
    \<and> (find (\<lambda>t. t_id t = taskId) apiTasks = Some apiTask
         \<and> override = \<lparr> o_minPlayerLevel = JUndef, o_name = JUndef, o_wikiLink = JUndef,
               o_map = JUndef, o_experience = JUndef, o_finishRewards = JUndef,
               o_taskRequirements = Some [], o_objectives = None, o_objectivesAdd = None,
               o_disabled = dis \<rparr>
         \<and> dis \<noteq> Some True
       \<longrightarrow> validateTaskOverride lc taskId override apiTasks =
             \<lparr> r_id = taskId, r_name = t_name apiTask, r_status = FIXED,
               r_stillNeeded = False, r_details = [] \<rparr>)"
proof -
  have none: "validateTaskRequirements override apiTask = None"
    using assms by (simp add: validateTaskRequirements_def Let_def)
  have "validateTaskOverride lc taskId override apiTasks =
          \<lparr> r_id = taskId, r_name = t_name apiTask, r_status = FIXED,
            r_stillNeeded = False, r_details = [] \<rparr>"
    if f: "find (\<lambda>t. t_id t = taskId) apiTasks = Some apiTask"
      and o: "override = \<lparr> o_minPlayerLevel = JUndef, o_name = JUndef, o_wikiLink = JUndef,
               o_map = JUndef, o_experience = JUndef, o_finishRewards = JUndef,
               o_taskRequirements = Some [], o_objectives = None, o_objectivesAdd = None,
               o_disabled = dis \<rparr>"
      and d: "dis \<noteq> Some True"
  proof -
    have fv: "createFieldValidator lc f override apiTask = None" for f
      by (simp add: o createFieldValidator_def overrideField_def)
    have "List.map_filter (\<lambda>validator. validator override apiTask) (FIELD_VALIDATORS lc) = []"
      by (simp add: FIELD_VALIDATORS_def List.map_filter_simps fv none)
    moreover have "o_objectives override = None" "o_objectivesAdd override = None"
      "o_disabled override \<noteq> Some True"
      using d by (simp_all add: o)
    ultimately show ?thesis
      unfolding validateTaskOverride_def f by (simp add: Let_def)
  qed
  with none show ?thesis by blast
qed

theorem empty_taskRequirements_no_detail_witness:
  "o_taskRequirements (noOverride\<lparr> o_taskRequirements := Some [] \<rparr>) = Some []
   \<and> validateTaskRequirements (noOverride\<lparr> o_taskRequirements := Some [] \<rparr>) liveTask = None
   \<and> validateTaskOverride default ''T'' (noOverride\<lparr> o_taskRequirements := Some [] \<rparr>) [liveTask] =
       \<lparr> r_id = ''T'', r_name = ''Task'', r_status = FIXED, r_stillNeeded = False, r_details = [] \<rparr>"
  using empty_taskRequirements_no_detail
    [where override = "noOverride\<lparr> o_taskRequirements := Some [] \<rparr>" and apiTask = liveTask
       and taskId = "''T''" and apiTasks = "[liveTask]" and dis = None and lc = "default"]
  by (simp add: noOverride_def liveTask_def requirementX_def)


section \<open>Applying the overlay\<close>

lemma not_index_disabled: "\<not> isArrayIndex ''disabled''"
  by (simp add: isArrayIndex_def isDigit_def)

lemma member_disabled_object:
  "member v ''disabled'' = JBool True \<Longrightarrow> \<exists>kvs. v = JObj kvs"
  by (cases v) (simp_all add: not_index_disabled)

lemma applyTaskOverlay_null_iff:
  "applyTaskOverlay task overlay = Inr None \<longleftrightarrow>
     member (case ov_tasks overlay of None \<Rightarrow> JUndef
             | Some tasks \<Rightarrow> get tasks (toString (get task ''id''))) ''disabled'' = JBool True"
proof -
  let ?tov = "case ov_tasks overlay of None \<Rightarrow> JUndef
             | Some tasks \<Rightarrow> get tasks (toString (get task ''id''))"
  show ?thesis
  proof (cases "member ?tov ''disabled'' = JBool True")
    case True
    then obtain kvs where "?tov = JObj kvs" using member_disabled_object by blast
    then show ?thesis using True by (simp add: applyTaskOverlay_def)
  next
    case False
    then have "applyTaskOverlay task overlay \<noteq> Inr None"
      by (simp add: applyTaskOverlay_def Let_def split: sum.splits jv.splits)
    then show ?thesis using False by simp
  qed
qed

lemma applyTaskOverlay_frame:
  assumes tasks: "ov_tasks overlay = Some patches"
    and entry: "get patches (toString (get task ''id'')) = JObj patch"
    and res: "applyTaskOverlay task overlay = Inr (Some result)"
  shows "\<exists>extra. (result = fold (\<lambda>(key, value) result.
                        if key = ''objectives'' \<or> key = ''objectivesAdd'' then result
                        else obj_set result key value) patch (spreadInto [] (JObj task))
            \<or> result = obj_set (fold (\<lambda>(key, value) result.
                        if key = ''objectives'' \<or> key = ''objectivesAdd'' then result
                        else obj_set result key value) patch (spreadInto [] (JObj task)))
                  ''objectives'' extra
            \<or> (\<exists>extra'. result = obj_set (obj_set (fold (\<lambda>(key, value) result.
                        if key = ''objectives'' \<or> key = ''objectivesAdd'' then result
                        else obj_set result key value) patch (spreadInto [] (JObj task)))
                  ''objectives'' extra') ''objectives'' extra))"
proof -
  have tov: "(case ov_tasks overlay of None \<Rightarrow> JUndef
              | Some tasks \<Rightarrow> get tasks (toString (get task ''id''))) = JObj patch"
    by (simp add: tasks entry)
  show ?thesis
    using res unfolding applyTaskOverlay_def tov overlay_step
    by (auto simp: Let_def split: if_splits sum.splits jv.splits)
qed

lemmas eval_simps =
  exampleTask_def otherTask_def patchOverlay_def disabledOverlay_def enabledOverlay_def
  applyTaskOverlay_def applyOverlayToTasks_def patchObjective_def spreadInto_def obj_set_def
  get_def keys_def isArrayIndex_def isDigit_def Let_def

text \<open>
  C5. A task whose id has no entry in the overlay's task map (or an overlay without a task
  map) is returned unchanged: the result is the task itself, every field untouched.
\<close>

theorem applyTaskOverlay_no_entry:
  assumes "case ov_tasks overlay of
             None \<Rightarrow> True
           | Some tasks \<Rightarrow> toString (get task ''id'') \<notin> set (keys tasks)"
  shows "applyTaskOverlay task overlay = Inr (Some task)"
  using assms by (simp add: applyTaskOverlay_def get_absent split: option.splits)

theorem applyTaskOverlay_no_entry_witness:
  "(case ov_tasks disabledOverlay of
      None \<Rightarrow> True
    | Some tasks \<Rightarrow> toString (get otherTask ''id'') \<notin> set (keys tasks))
   \<and> applyTaskOverlay otherTask disabledOverlay = Inr (Some otherTask)"
  using applyTaskOverlay_no_entry [where overlay = disabledOverlay and task = otherTask]
  by (simp add: disabledOverlay_def otherTask_def get_def keys_def)

text \<open>
  C4. A task whose override has \<^verbatim>\<open>disabled === true\<close> makes \<^const>\<open>applyTaskOverlay\<close> return
  \<^verbatim>\<open>null\<close>. The batch form, when no task makes it throw, returns exactly the corrected
  tasks of the tasks that are not disabled, in their original order: a disabled task
  leaves no element in the result.
\<close>

theorem disabled_task_dropped:
  assumes "ov_tasks overlay = Some patches"
  shows "(member (get patches (toString (get task ''id''))) ''disabled'' = JBool True
            \<longrightarrow> applyTaskOverlay task overlay = Inr None)
       \<and> ((\<forall>t \<in> set tasks. applyTaskOverlay t overlay \<noteq> Inl TypeError) \<longrightarrow>
            (\<exists>results. applyOverlayToTasks tasks overlay = Inr results
               \<and> map (\<lambda>r. Inr (Some r)) results =
                   map (\<lambda>t. applyTaskOverlay t overlay)
                     (filter (\<lambda>t. member (get patches (toString (get t ''id''))) ''disabled''
                                  \<noteq> JBool True) tasks)))"
proof -
  let ?dis = "\<lambda>t. member (get patches (toString (get t ''id''))) ''disabled'' = JBool True"
  have null: "applyTaskOverlay t overlay = Inr None \<longleftrightarrow> ?dis t" for t
    by (simp add: applyTaskOverlay_null_iff assms)
  have batch: "\<exists>results. applyOverlayToTasks tasks overlay = Inr results
      \<and> map (\<lambda>r. Inr (Some r)) results =
          map (\<lambda>t. applyTaskOverlay t overlay) (filter (\<lambda>t. \<not> ?dis t) tasks)"
    if ok: "\<forall>t \<in> set tasks. applyTaskOverlay t overlay \<noteq> Inl TypeError"
  proof -
    have "\<forall>t \<in> set tasks. applyTaskOverlay t overlay = Inr (projr (applyTaskOverlay t overlay))"
    proof
      fix t assume "t \<in> set tasks"
      then have "applyTaskOverlay t overlay \<noteq> Inl TypeError" using ok by blast
      then show "applyTaskOverlay t overlay = Inr (projr (applyTaskOverlay t overlay))"
        by (cases "applyTaskOverlay t overlay") (auto intro: error.exhaust)
    qed
    then have m: "mapM (\<lambda>t. applyTaskOverlay t overlay) tasks =
        Inr (map (\<lambda>t. projr (applyTaskOverlay t overlay)) tasks)"
      by (rule mapM_Inr)
    let ?res = "map the (filter (\<lambda>r. r \<noteq> None)
        (map (\<lambda>t. projr (applyTaskOverlay t overlay)) tasks))"
    have "map (\<lambda>r. Inr (Some r)) ?res =
          map (\<lambda>t. applyTaskOverlay t overlay) (filter (\<lambda>t. \<not> ?dis t) tasks)"
      using ok
    proof (induction tasks)
      case Nil
      show ?case by simp
    next
      case (Cons t ts)
      have t: "applyTaskOverlay t overlay \<noteq> Inl TypeError" using Cons.prems by simp
      show ?case
      proof (cases "applyTaskOverlay t overlay")
        case (Inl e)
        then show ?thesis using t by (cases e) simp
      next
        case (Inr r)
        then show ?thesis using Cons null [of t] by (cases r) auto
      qed
    qed
    then show ?thesis by (simp add: applyOverlayToTasks_def m)
  qed
  show ?thesis using null batch by blast
qed

theorem disabled_task_dropped_witness:
  "ov_tasks disabledOverlay = Some [(''T'', JObj [(''disabled'', JBool True)])]
   \<and> member (get [(''T'', JObj [(''disabled'', JBool True)])] (toString (get exampleTask ''id'')))
        ''disabled'' = JBool True
   \<and> applyTaskOverlay exampleTask disabledOverlay = Inr None
   \<and> applyOverlayToTasks [otherTask, exampleTask, otherTask] disabledOverlay
       = Inr [otherTask, otherTask]"
  using disabled_task_dropped
    [where overlay = disabledOverlay and patches = "[(''T'', JObj [(''disabled'', JBool True)])]"
       and task = exampleTask and tasks = "[otherTask, exampleTask, otherTask]"]
  by (simp add: eval_simps)

text \<open>
  C3. For a task with a list of objective records and a patch with an \<^verbatim>\<open>objectives\<close> map of
  objective patches and/or an \<^verbatim>\<open>objectivesAdd\<close> list, \<^const>\<open>applyTaskOverlay\<close> returns a
  task whose objectives are the original ones in their original order, each one whose id
  is a key of the patch map replaced by the shallow merge of the objective with its patch
  and every other one unchanged, followed by the \<^verbatim>\<open>objectivesAdd\<close> records as they are. In
  a shallow merge the patch's fields overwrite: a key of the patch reads the patch's value,
  every other key the objective's.
\<close>

theorem objectives_patched_and_appended:
  assumes tasks: "ov_tasks overlay = Some patches"
    and entry: "get patches (toString (get task ''id'')) = JObj patch"
    and enabled: "get patch ''disabled'' \<noteq> JBool True"
    and task: "distinct (keys task)" "get task ''objectives'' = JArr objectives"
    and records: "\<forall>objective \<in> set objectives. \<exists>fields. objective = JObj fields"
    and pmap: "get patch ''objectives'' = JObj pm
               \<or> get patch ''objectives'' = JUndef \<and> pm = []"
    and pvals: "\<forall>p \<in> snd ` set pm. \<exists>fields. p = JObj fields"
    and adds: "get patch ''objectivesAdd'' = JArr added
               \<or> get patch ''objectivesAdd'' = JUndef \<and> added = []"
  shows "(\<exists>result. applyTaskOverlay task overlay = Inr (Some result)
           \<and> get result ''objectives'' =
               JArr (map (\<lambda>objective.
                            case map_of pm (toString (member objective ''id'')) of
                              None \<Rightarrow> objective
                            | Some p \<Rightarrow> JObj (spreadInto (spreadInto [] objective) p))
                       objectives
                     @ added))
       \<and> (\<forall>a p k. distinct (keys a) \<and> distinct (keys p) \<longrightarrow>
             get (spreadInto (spreadInto [] (JObj a)) (JObj p)) k =
               (if k \<in> set (keys p) then get p k else get a k))"
proof -
  let ?g = "\<lambda>objective. case map_of pm (toString (member objective ''id'')) of
              None \<Rightarrow> objective
            | Some p \<Rightarrow> JObj (spreadInto (spreadInto [] objective) p)"
  let ?step = "\<lambda>(key, value) result.
      if key = ''objectives'' \<or> key = ''objectivesAdd'' then result
      else obj_set result key value"
  let ?r0 = "fold ?step patch (spreadInto [] (JObj task))"
  have r0: "get ?r0 ''objectives'' = JArr objectives"
    by (simp add: get_objectives_fold_overlay_step get_copy task)
  have tov: "(case ov_tasks overlay of None \<Rightarrow> JUndef
              | Some tasks \<Rightarrow> get tasks (toString (get task ''id''))) = JObj patch"
    by (simp add: tasks entry)
  have truthy_p: "truthy (get pm k) \<longleftrightarrow> map_of pm k \<noteq> None" for k
  proof (cases "map_of pm k")
    case None
    then show ?thesis by (simp add: get_def)
  next
    case (Some p)
    then have "p \<in> snd ` set pm" by (force dest: map_of_SomeD)
    then obtain fields where "p = JObj fields" using pvals by blast
    then show ?thesis using Some by (simp add: get_def)
  qed
  have patched: "mapM (patchObjective (JObj patch)) objectives = Inr (map ?g objectives)"
    if "get patch ''objectives'' = JObj pm"
  proof (rule mapM_Inr, rule ballI)
    fix objective assume "objective \<in> set objectives"
    then obtain fields where o: "objective = JObj fields" using records by blast
    let ?k = "toString (member objective ''id'')"
    have unfold: "patchObjective (JObj patch) objective =
        (if \<not> truthy (get pm ?k) then Inr objective
         else Inr (JObj (spreadInto (spreadInto [] objective) (get pm ?k))))"
      by (simp add: patchObjective_def o that Let_def)
    show "patchObjective (JObj patch) objective = Inr (?g objective)"
    proof (cases "map_of pm ?k")
      case None
      then show ?thesis using truthy_p [of ?k] by (simp add: unfold)
    next
      case (Some p)
      then have "get pm ?k = p" by (simp add: get_def)
      then show ?thesis using truthy_p [of ?k] Some by (simp add: unfold)
    qed
  qed
  define r1 where "r1 = (if get patch ''objectives'' = JObj pm
                         then obj_set ?r0 ''objectives'' (JArr (map ?g objectives)) else ?r0)"
  have id_g: "map ?g objectives = objectives" if "pm = []"
    using that by simp
  have r1: "get r1 ''objectives'' = JArr (map ?g objectives)"
    using pmap r0 id_g by (auto simp: r1_def get_obj_set)
  define r2 where "r2 = (if get patch ''objectivesAdd'' = JArr added
                         then obj_set r1 ''objectives'' (JArr (map ?g objectives @ added)) else r1)"
  have r2: "get r2 ''objectives'' = JArr (map ?g objectives @ added)"
    using adds r1 by (auto simp: r2_def get_obj_set)
  have "applyTaskOverlay task overlay = Inr (Some r2)"
  proof (cases "get patch ''objectives'' = JObj pm")
    case True
    show ?thesis
    proof (cases "get patch ''objectivesAdd'' = JArr added")
      case True
      show ?thesis
        unfolding applyTaskOverlay_def tov overlay_step
        using enabled \<open>get patch ''objectives'' = JObj pm\<close> True task(2) patched r1
        by (simp add: Let_def r1_def r2_def)
    next
      case False
      then have "get patch ''objectivesAdd'' = JUndef" using adds by blast
      then show ?thesis
        unfolding applyTaskOverlay_def tov overlay_step
        using enabled True task(2) patched
        by (simp add: Let_def r1_def r2_def)
    qed
  next
    case False
    then have u: "get patch ''objectives'' = JUndef" using pmap by blast
    show ?thesis
    proof (cases "get patch ''objectivesAdd'' = JArr added")
      case True
      show ?thesis
        unfolding applyTaskOverlay_def tov overlay_step
        using enabled u True r1
        by (simp add: Let_def r1_def r2_def)
    next
      case False
      then have "get patch ''objectivesAdd'' = JUndef" using adds by blast
      then show ?thesis
        unfolding applyTaskOverlay_def tov overlay_step
        using enabled u
        by (simp add: Let_def r1_def r2_def)
    qed
  qed
  then show ?thesis using r2 get_spread_merge by blast
qed

theorem objectives_patched_and_appended_witness:
  "get exampleTask ''objectives'' =
     JArr [JObj [(''id'', JStr ''a''), (''count'', JNum 1)],
           JObj [(''id'', JStr ''b''), (''count'', JNum 2)]]
   \<and> (\<exists>result. applyTaskOverlay exampleTask patchOverlay = Inr (Some result)
         \<and> get result ''objectives'' =
             JArr [JObj [(''id'', JStr ''a''), (''count'', JNum 1)],
                   JObj [(''id'', JStr ''b''), (''count'', JNum 5)],
                   JObj [(''id'', JStr ''z''), (''description'', JStr ''New'')]])"
  using objectives_patched_and_appended
    [where overlay = patchOverlay and task = exampleTask
       and patches = "[(''T'', JObj
         [(''objectives'', JObj [(''b'', JObj [(''count'', JNum 5)])]),
          (''objectivesAdd'', JArr [JObj [(''id'', JStr ''z''), (''description'', JStr ''New'')]])])]"
       and patch = "[(''objectives'', JObj [(''b'', JObj [(''count'', JNum 5)])]),
          (''objectivesAdd'', JArr [JObj [(''id'', JStr ''z''), (''description'', JStr ''New'')]])]"
       and objectives = "[JObj [(''id'', JStr ''a''), (''count'', JNum 1)],
                          JObj [(''id'', JStr ''b''), (''count'', JNum 2)]]"
       and pm = "[(''b'', JObj [(''count'', JNum 5)])]"
       and added = "[JObj [(''id'', JStr ''z''), (''description'', JStr ''New'')]]"]
  by (simp add: exampleTask_def patchOverlay_def spreadInto_def obj_set_def
        get_def keys_def isArrayIndex_def isDigit_def)

text \<open>
  C10. Only the boolean \<^verbatim>\<open>true\<close> drops a task. When the patch has a \<^verbatim>\<open>disabled\<close> property
  with any other value (\<^verbatim>\<open>false\<close>, say), \<^const>\<open>applyTaskOverlay\<close> never returns \<^verbatim>\<open>null\<close>:
  unless it throws on an ill-typed objectives field, it returns a task, and \<^verbatim>\<open>disabled\<close> is
  a property of that task with the patch's value, merged like any other field.
\<close>

theorem disabled_other_value_merged:
  assumes tasks: "ov_tasks overlay = Some patches"
    and entry: "get patches (toString (get task ''id'')) = JObj patch"
    and patch: "distinct (keys patch)" "''disabled'' \<in> set (keys patch)"
    and other: "get patch ''disabled'' \<noteq> JBool True"
  shows "applyTaskOverlay task overlay \<noteq> Inr None
       \<and> (applyTaskOverlay task overlay \<noteq> Inl TypeError \<longrightarrow>
            (\<exists>result. applyTaskOverlay task overlay = Inr (Some result)
               \<and> ''disabled'' \<in> set (keys result)
               \<and> get result ''disabled'' = get patch ''disabled''))"
proof -
  let ?r0 = "fold (\<lambda>(key, value) result.
                if key = ''objectives'' \<or> key = ''objectivesAdd'' then result
                else obj_set result key value) patch (spreadInto [] (JObj task))"
  have kept: "applyTaskOverlay task overlay \<noteq> Inr None"
    using other by (simp add: applyTaskOverlay_null_iff tasks entry)
  have "\<exists>result. applyTaskOverlay task overlay = Inr (Some result)
          \<and> ''disabled'' \<in> set (keys result)
          \<and> get result ''disabled'' = get patch ''disabled''"
    if returns: "applyTaskOverlay task overlay \<noteq> Inl TypeError"
  proof -
    obtain result where res: "applyTaskOverlay task overlay = Inr (Some result)"
      using kept returns by (cases "applyTaskOverlay task overlay") (auto intro: error.exhaust)
    have g0: "get ?r0 ''disabled'' = get patch ''disabled''"
      using patch by (simp add: get_fold_overlay_step)
    have k0: "''disabled'' \<in> set (keys ?r0)"
      using patch(2) by (rule keys_fold_overlay_step) simp_all
    from applyTaskOverlay_frame [OF tasks entry res]
    have "''disabled'' \<in> set (keys result) \<and> get result ''disabled'' = get patch ''disabled''"
      using g0 k0 by (auto simp: get_obj_set set_keys_obj_set)
    then show ?thesis using res by blast
  qed
  with kept show ?thesis by blast
qed

theorem disabled_other_value_merged_witness:
  "get [(''disabled'', JBool False), (''minPlayerLevel'', JNum 10)] ''disabled'' \<noteq> JBool True
   \<and> applyTaskOverlay exampleTask enabledOverlay =
       Inr (Some [(''id'', JStr ''T''), (''name'', JStr ''Task''), (''minPlayerLevel'', JNum 10),
                  (''objectives'', JArr [JObj [(''id'', JStr ''a''), (''count'', JNum 1)],
                                         JObj [(''id'', JStr ''b''), (''count'', JNum 2)]]),
                  (''disabled'', JBool False)])"
  using disabled_other_value_merged
    [where overlay = enabledOverlay and task = exampleTask
       and patches = "[(''T'', JObj [(''disabled'', JBool False), (''minPlayerLevel'', JNum 10)])]"
       and patch = "[(''disabled'', JBool False), (''minPlayerLevel'', JNum 10)]"]
  by (simp add: eval_simps)

end
